theory Spec2Isabelle
  imports Main "HOL-Library.Sublist"
begin

section \<open>Python strings\<close>

text \<open>
  A Python \<open>str\<close> is a sequence of code points. The model is \<open>string\<close>, each \<open>char\<close>
  read as one code point below 256 (ASCII and the Latin-1 supplement); on these code
  points \<open>str.lower\<close> and \<open>str.isspace\<close> are the tables below, and \<open>lower\<close> keeps
  the length of its argument.
\<close>

definition lower_char :: "char \<Rightarrow> char" where
  "lower_char c =
     (let n = (of_char c :: nat)
      in if (65 \<le> n \<and> n \<le> 90) \<or> (192 \<le> n \<and> n \<le> 222 \<and> n \<noteq> 215)
         then char_of (n + 32) else c)"

definition lower :: "string \<Rightarrow> string" where
  "lower s = map lower_char s"

definition isspace :: "char \<Rightarrow> bool" where
  "isspace c =
     (let n = (of_char c :: nat)
      in (9 \<le> n \<and> n \<le> 13) \<or> (28 \<le> n \<and> n \<le> 32) \<or> n = 133 \<or> n = 160)"

text \<open>\<open>s.strip()\<close>: drop the white space at both ends.\<close>

definition strip :: "string \<Rightarrow> string" where
  "strip s = rev (dropWhile isspace (rev (dropWhile isspace s)))"

text \<open>\<open>s.startswith(k)\<close> and \<open>s.endswith(k)\<close>.\<close>

fun startswith :: "string \<Rightarrow> string \<Rightarrow> bool" where
  "startswith s [] = True"
| "startswith [] (k # ks) = False"
| "startswith (c # cs) (k # ks) = (c = k \<and> startswith cs ks)"

definition endswith :: "string \<Rightarrow> string \<Rightarrow> bool" where
  "endswith s k = startswith (rev s) (rev k)"

text \<open>\<open>k in s\<close> on two strings: \<open>k\<close> starts at some position of \<open>s\<close>.\<close>

fun str_in :: "string \<Rightarrow> string \<Rightarrow> bool" where
  "str_in k [] = (k = [])"
| "str_in k (c # cs) = (startswith (c # cs) k \<or> str_in k cs)"

text \<open>\<open>any(p(x) for x in xs)\<close> and \<open>all(p(x) for x in xs)\<close>, left to right.\<close>

fun any :: "('a \<Rightarrow> bool) \<Rightarrow> 'a list \<Rightarrow> bool" where
  "any p [] = False"
| "any p (x # xs) = (if p x then True else any p xs)"

fun all :: "('a \<Rightarrow> bool) \<Rightarrow> 'a list \<Rightarrow> bool" where
  "all p [] = True"
| "all p (x # xs) = (if p x then all p xs else False)"

text \<open>\<open>sep.join(parts)\<close>.\<close>

fun join :: "string \<Rightarrow> string list \<Rightarrow> string" where
  "join sep [] = []"
| "join sep [x] = x"
| "join sep (x # y # ys) = x @ sep @ join sep (y # ys)"

section \<open>Config\<close>

definition ORG_KEYWORDS :: "string list" where
  "ORG_KEYWORDS = [''org'', ''organization'', ''structure'',
                   ''team'', ''manager'', ''lead'', ''report'',
                   ''department'', ''chart'']"

definition TERMINATION_PHRASES :: "string list" where
  "TERMINATION_PHRASES = [
     ''I'' @ [CHR 0x27] @ ''m unable to provide'',
     ''I am sorry'',
     ''need more information'',
     ''please provide a question'',
     ''please clarify'',
     ''no relevant answer'',
     ''I apologize'']"

section \<open>ChatManager.generate_response: the prompt classifier\<close>

text \<open>Lines 141-143: \<open>prompt_lower = prompt.lower()\<close> and the \<open>any\<close> over the keywords.\<close>

definition is_org_related :: "string \<Rightarrow> bool" where
  "is_org_related prompt =
     (let prompt_lower = lower prompt
      in any (\<lambda>keyword. str_in keyword prompt_lower) ORG_KEYWORDS)"


section \<open>Dictionaries and errors\<close>

text \<open>
  A \<open>dict\<close> is an association list in insertion order with \<open>map_of\<close> as lookup.
  Each exception the code can raise is a value of \<open>error\<close>; a function that can raise
  returns \<open>error + 'a\<close>.
\<close>

datatype error =
    KeyError string
  | AttributeError string
  | FileNotFoundError
  | NotADirectoryError
  | IsADirectoryError
  | UnicodeDecodeError
  | ChatFailure

type_synonym ('k, 'v) dict = "('k \<times> 'v) list"

text \<open>\<open>d[k]\<close>, \<open>d.get(k, default)\<close> and \<open>d[k] = v\<close> (a new key goes last).\<close>

definition getitem :: "(string, 'v) dict \<Rightarrow> string \<Rightarrow> error + 'v" where
  "getitem d k = (case map_of d k of None \<Rightarrow> Inl (KeyError k) | Some v \<Rightarrow> Inr v)"

definition get_default :: "('k, 'v) dict \<Rightarrow> 'k \<Rightarrow> 'v \<Rightarrow> 'v" where
  "get_default d k dflt = (case map_of d k of None \<Rightarrow> dflt | Some v \<Rightarrow> v)"

fun setitem :: "'k \<Rightarrow> 'v \<Rightarrow> ('k, 'v) dict \<Rightarrow> ('k, 'v) dict" where
  "setitem k v [] = [(k, v)]"
| "setitem k v ((k', v') # d) = (if k' = k then (k, v) # d else (k', v') # setitem k v d)"

text \<open>A chat message is a dict with the keys \<open>role\<close> and \<open>content\<close>, both strings.\<close>

type_synonym message = "(string, string) dict"

definition msg :: "string \<Rightarrow> string \<Rightarrow> message" where
  "msg r c = [(''role'', r), (''content'', c)]"

section \<open>DocumentLoader\<close>

text \<open>
  The file system as the loader sees it: a path is absent, a directory with its
  \<open>os.listdir\<close> names, or a regular file with its bytes decoded as UTF-8 (\<open>None\<close> when
  they do not decode).
\<close>

datatype fs_entry = RegularFile "string option" | Directory "string list"

type_synonym filesystem = "string \<Rightarrow> fs_entry option"

type_synonym docs = "(string, (string, string) dict) dict"

definition path_exists :: "filesystem \<Rightarrow> string \<Rightarrow> bool" where
  "path_exists fs p = (fs p \<noteq> None)"

definition listdir :: "filesystem \<Rightarrow> string \<Rightarrow> error + string list" where
  "listdir fs p =
     (case fs p of
        None \<Rightarrow> Inl FileNotFoundError
      | Some (RegularFile _) \<Rightarrow> Inl NotADirectoryError
      | Some (Directory names) \<Rightarrow> Inr names)"

definition path_join :: "string \<Rightarrow> string \<Rightarrow> string" where
  "path_join p f =
     (if startswith f ''/'' then f
      else if p = [] \<or> endswith p ''/'' then p @ f
      else p @ ''/'' @ f)"

text \<open>
  A file opened in text mode with the default \<open>newline=None\<close> is read with universal
  newlines: a carriage return followed by a line feed, and a carriage return alone,
  both come out as one line feed.
\<close>

fun universal_newlines :: "string \<Rightarrow> string" where
  "universal_newlines [] = []"
| "universal_newlines [c] = (if c = CHR 0x0D then [CHR 0x0A] else [c])"
| "universal_newlines (c # d # ds) =
     (if c = CHR 0x0D
      then (if d = CHR 0x0A then CHR 0x0A # universal_newlines ds
            else CHR 0x0A # universal_newlines (d # ds))
      else c # universal_newlines (d # ds))"

text \<open>\<open>open(p, "r", encoding="utf-8")\<close> and \<open>f.read()\<close>.\<close>

definition open_read :: "filesystem \<Rightarrow> string \<Rightarrow> error + string" where
  "open_read fs p =
     (case fs p of
        None \<Rightarrow> Inl FileNotFoundError
      | Some (Directory _) \<Rightarrow> Inl IsADirectoryError
      | Some (RegularFile None) \<Rightarrow> Inl UnicodeDecodeError
      | Some (RegularFile (Some decoded)) \<Rightarrow> Inr (universal_newlines decoded))"

definition base_dirs :: "(string, string) dict" where
  "base_dirs = [(''personal'', ''uploaded_docs/personal''),
                (''org'', ''uploaded_docs/org'')]"

text \<open>Lines 41-45: the loop over the names of one directory, filling \<open>docs[category]\<close>.\<close>

fun load_files ::
  "filesystem \<Rightarrow> string \<Rightarrow> string list \<Rightarrow> (string, string) dict \<Rightarrow> error + (string, string) dict"
where
  "load_files fs path [] d = Inr d"
| "load_files fs path (fname # rest) d =
     (if endswith fname ''.md''
      then (case open_read fs (path_join path fname) of
              Inl e \<Rightarrow> Inl e
            | Inr content \<Rightarrow> load_files fs path rest (setitem fname content d))
      else load_files fs path rest d)"

text \<open>Lines 39-45: the loop over \<open>base_dirs.items()\<close>.\<close>

fun load_categories :: "filesystem \<Rightarrow> (string, string) dict \<Rightarrow> docs \<Rightarrow> error + docs" where
  "load_categories fs [] docs = Inr docs"
| "load_categories fs ((category, path) # rest) docs =
     (if path_exists fs path
      then (case listdir fs path of
              Inl e \<Rightarrow> Inl e
            | Inr names \<Rightarrow>
                (case getitem docs category of
                   Inl e \<Rightarrow> Inl e
                 | Inr d \<Rightarrow>
                     (case load_files fs path names d of
                        Inl e \<Rightarrow> Inl e
                      | Inr d' \<Rightarrow> load_categories fs rest (setitem category d' docs))))
      else load_categories fs rest docs)"

definition load_documents :: "filesystem \<Rightarrow> error + docs" where
  "load_documents fs = load_categories fs base_dirs [(''personal'', []), (''org'', [])]"

text \<open>
  For stating what the loader returns: a category directory the loader can read (absent,
  or a directory whose \<open>*.md\<close> entries are regular files of valid UTF-8), and the
  mapping expected for it, from each listed \<open>*.md\<close> name to the text read from its file.
\<close>

definition readable_dir :: "filesystem \<Rightarrow> string \<Rightarrow> bool" where
  "readable_dir fs path =
     (case fs path of
        None \<Rightarrow> True
      | Some (RegularFile _) \<Rightarrow> False
      | Some (Directory names) \<Rightarrow>
          (\<forall>f\<in>set names. endswith f ''.md'' \<longrightarrow>
             (case fs (path_join path f) of Some (RegularFile (Some t)) \<Rightarrow> True | _ \<Rightarrow> False)))"

definition category_files :: "filesystem \<Rightarrow> string \<Rightarrow> (string \<rightharpoonup> string)" where
  "category_files fs path =
     (case fs path of
        Some (Directory names) \<Rightarrow>
          (\<lambda>f. if f \<in> set names \<and> endswith f ''.md''
               then (case fs (path_join path f) of
                       Some (RegularFile (Some t)) \<Rightarrow> Some (universal_newlines t)
                     | _ \<Rightarrow> None)
               else None)
      | _ \<Rightarrow> Map.empty)"

section \<open>MermaidExtractor\<close>

text \<open>
  The pattern is the opening marker (three backquotes, \<open>mermaid\<close>, a line feed), the lazy
  group \<open>(.*?)\<close> under \<open>re.DOTALL\<close>, and three backquotes.
\<close>

definition FENCE :: string where
  "FENCE = [CHR 0x60, CHR 0x60, CHR 0x60]"

definition FENCE_OPEN :: string where
  "FENCE_OPEN = FENCE @ ''mermaid'' @ [CHR 0x0A]"

text \<open>
  The lazy group followed by the closing fence: the shortest body first, one more
  character of any kind on each retry.
\<close>

fun lazy_body :: "string \<Rightarrow> (string \<times> string) option" where
  "lazy_body [] = None"
| "lazy_body (c # cs) =
     (if startswith (c # cs) FENCE then Some ([], drop (length FENCE) (c # cs))
      else (case lazy_body cs of
              None \<Rightarrow> None
            | Some (body, rest) \<Rightarrow> Some (c # body, rest)))"

text \<open>A match attempt at the start of \<open>s\<close>: group 1 and the text after the match.\<close>

definition match_at :: "string \<Rightarrow> (string \<times> string) option" where
  "match_at s =
     (if startswith s FENCE_OPEN then lazy_body (drop (length FENCE_OPEN) s) else None)"

lemma lazy_body_shorter: "lazy_body s = Some (body, rest) \<Longrightarrow> length rest < length s"
proof (induction s arbitrary: body)
  case Nil
  then show ?case by simp
next
  case (Cons c cs)
  then show ?case
    by (auto simp: FENCE_def split: if_splits option.splits)
qed

lemma match_at_shorter: "match_at s = Some (body, rest) \<Longrightarrow> length rest < length s"
  by (auto simp: match_at_def split: if_splits dest!: lazy_body_shorter)

text \<open>
  \<open>re.findall\<close>: try each start position from the left; after a match, go on at its
  end.
\<close>

function findall :: "string \<Rightarrow> string list" where
  "findall s =
     (case match_at s of
        Some (body, rest) \<Rightarrow> body # findall rest
      | None \<Rightarrow> (case s of [] \<Rightarrow> [] | c # cs \<Rightarrow> findall cs))"
  by pat_completeness auto
termination
  by (relation "measure length") (auto dest: match_at_shorter)

declare findall.simps [simp del]

definition extract_mermaid_blocks :: "string \<Rightarrow> string list" where
  "extract_mermaid_blocks markdown_text = findall markdown_text"

section \<open>ChatManager\<close>

definition agent_roles :: "string list" where
  "agent_roles = [''TextRAG_Agent'', ''GraphRAG_Agent'']"

text \<open>\<open>chat_history[-3:]\<close>.\<close>

definition last3 :: "'a list \<Rightarrow> 'a list" where
  "last3 h = drop (length h - 3) h"

text \<open>
  Lines 115-119: the comprehension tests \<open>msg["role"]\<close> first and reads
  \<open>msg["content"]\<close> only for an agent role.
\<close>

fun last_few_of :: "message list \<Rightarrow> error + string list" where
  "last_few_of [] = Inr []"
| "last_few_of (m # ms) =
     (case getitem m ''role'' of
        Inl e \<Rightarrow> Inl e
      | Inr r \<Rightarrow>
          if r \<in> set agent_roles
          then (case getitem m ''content'' of
                  Inl e \<Rightarrow> Inl e
                | Inr c \<Rightarrow>
                    (case last_few_of ms of
                       Inl e \<Rightarrow> Inl e
                     | Inr rest \<Rightarrow> Inr (lower (strip c) # rest)))
          else last_few_of ms)"

definition should_stop :: "message list \<Rightarrow> error + bool" where
  "should_stop chat_history =
     (case last_few_of (last3 chat_history) of
        Inl e \<Rightarrow> Inl e
      | Inr last_few \<Rightarrow>
          Inr (all (\<lambda>resp. any (\<lambda>generic. str_in generic resp) TERMINATION_PHRASES)
                 last_few))"

text \<open>
  The avatars are emoji: the brain (U+1F9E0) and the woman office worker
  (U+1F469 U+200D U+1F4BC).
\<close>

datatype avatar = BRAIN | WOMAN_OFFICE_WORKER

text \<open>
  \<open>Config.USER_IMAGE\<close>: the class \<open>Config\<close> (lines 12-27) binds \<open>GEMINI1_API_KEY\<close>,
  \<open>GEMINI2_API_KEY\<close>, \<open>SEED\<close>, \<open>ORG_KEYWORDS\<close> and \<open>TERMINATION_PHRASES\<close> only, so the
  attribute access raises.
\<close>

definition Config_USER_IMAGE :: "error + avatar" where
  "Config_USER_IMAGE = Inl (AttributeError ''USER_IMAGE'')"

definition get_avatar :: "string \<Rightarrow> error + avatar" where
  "get_avatar role =
     (if role = ''user_proxy'' then Inr BRAIN
      else if role = ''user'' then Inr WOMAN_OFFICE_WORKER
      else if role \<in> set [''TextRAG_Agent'', ''GraphRAG_Agent'']
      then Inr WOMAN_OFFICE_WORKER
      else Config_USER_IMAGE)"

text \<open>\<open>text.split()\<close>: the maximal runs of characters that are not white space.\<close>

fun split_acc :: "string \<Rightarrow> string \<Rightarrow> string list" where
  "split_acc w [] = (if w = [] then [] else [w])"
| "split_acc w (c # cs) =
     (if isspace c then (if w = [] then split_acc [] cs else w # split_acc [] cs)
      else split_acc (w @ [c]) cs)"

definition split :: "string \<Rightarrow> string list" where
  "split s = split_acc [] s"

text \<open>Lines 134-137: the chunks the generator yields (the sleep between them is not modelled).\<close>

definition stream_response :: "string \<Rightarrow> string list" where
  "stream_response text = map (\<lambda>word. word @ '' '') (split text)"

text \<open>
  What \<open>show_chat_history\<close> does to the user interface: each call on a chat message of
  the container, with the index of the history entry it renders, and the entries
  appended to \<open>st.session_state.rag_messages\<close>.
\<close>

datatype render =
    Write string avatar string
  | Markdown string avatar string
  | Write_stream string avatar "string list"

record ui =
  rag_messages :: "(string \<times> string \<times> avatar) list"
  rendered :: "(nat \<times> render) list"

definition emit :: "nat \<Rightarrow> render \<Rightarrow> ui \<Rightarrow> ui" where
  "emit i r u = u\<lparr>rendered := rendered u @ [(i, r)]\<rparr>"

text \<open>
  Lines 216-249, over \<open>enumerate(chat_history)\<close>; \<open>n\<close> is \<open>len(chat_history)\<close>. An
  exception ends the loop and leaves what was rendered before it.
\<close>

fun show_loop :: "nat \<Rightarrow> (nat \<times> message) list \<Rightarrow> ui \<Rightarrow> error option \<times> ui" where
  "show_loop n [] u = (None, u)"
| "show_loop n ((i, entry) # rest) u =
     (let role = get_default entry ''role'' ''assistant'';
          content = strip (get_default entry ''content'' [])
      in if content = [] then show_loop n rest u
         else (case get_avatar role of
                 Inl e \<Rightarrow> (Some e, u)
               | Inr avatar \<Rightarrow>
                   (let u1 = u\<lparr>rag_messages := rag_messages u @ [(role, content, avatar)]\<rparr>
                    in if role = ''user_proxy''
                       then show_loop n rest
                              (emit i (Write ''user'' BRAIN (''*System prompted:* '' @ content)) u1)
                       else if role = ''user''
                       then show_loop n rest (emit i (Write ''user'' WOMAN_OFFICE_WORKER content) u1)
                       else if role \<in> set [''TextRAG_Agent'', ''GraphRAG_Agent'']
                       then (if int i = int n - 1
                             then show_loop n rest
                                    (emit i (Write_stream ''assistant'' WOMAN_OFFICE_WORKER
                                               (stream_response content)) u1)
                             else show_loop n rest
                                    (emit i (Markdown ''assistant'' WOMAN_OFFICE_WORKER content) u1))
                       else (case Config_USER_IMAGE of
                               Inl e \<Rightarrow> (Some e, u1)
                             | Inr user_image \<Rightarrow>
                                 (if int i = int n - 1
                                  then show_loop n rest
                                         (emit i (Write_stream ''assistant'' user_image
                                                    (stream_response content)) u1)
                                  else show_loop n rest
                                         (emit i (Markdown ''assistant'' user_image content) u1))))))"

definition show_chat_history :: "message list \<Rightarrow> ui \<Rightarrow> error option \<times> ui" where
  "show_chat_history chat_history u =
     show_loop (length chat_history) (zip [0..<length chat_history] chat_history) u"

subsection \<open>generate_response\<close>

text \<open>
  \<open>user_proxy.initiate_chat(agent, message=final_prompt, ...)\<close> belongs to the agent
  framework: a parameter of the model, from the name of the agent and the message to
  \<open>response.chat_history\<close>, or to the failure the framework raises.
\<close>

type_synonym initiate_chat = "string \<Rightarrow> string \<Rightarrow> error + message list"

definition graph_agent_name :: string where
  "graph_agent_name = ''GraphRAG_Agent''"

definition text_agent_name :: string where
  "text_agent_name = ''TextRAG_Agent''"

definition NL :: string where
  "NL = [CHR 0x0A]"

definition APOS :: string where
  "APOS = [CHR 0x27]"

text \<open>Lines 145-149.\<close>

definition mermaid_blocks_of :: "docs \<Rightarrow> string list" where
  "mermaid_blocks_of docs =
     concat (map extract_mermaid_blocks (map snd (get_default docs ''org'' [])))"

text \<open>Lines 150-160.\<close>

definition org_final_prompt :: "docs \<Rightarrow> string \<Rightarrow> string" where
  "org_final_prompt docs prompt =
     (let mermaid_blocks = mermaid_blocks_of docs;
          mermaid_diagrams =
            join (NL @ NL) (map (\<lambda>block. FENCE_OPEN @ block @ NL @ FENCE) mermaid_blocks)
      in ''Based on the following organization charts,''
         @ ''answer the user'' @ APOS @ ''s question.''
         @ ''Only use this information to determine reporting lines,''
         @ ''structure, or team relationships.''
         @ ''Do not include any Mermaid diagrams or''
         @ ''raw reference material in your response:'' @ NL @ NL
         @ mermaid_diagrams @ NL @ NL @ ''User'' @ APOS @ ''s question: '' @ prompt)"

text \<open>Lines 178-188.\<close>

definition personal_final_prompt :: "docs \<Rightarrow> string \<Rightarrow> string" where
  "personal_final_prompt docs prompt =
     (let personal_content =
            join (NL @ NL)
              (map (\<lambda>(fname, content). ''# '' @ fname @ NL @ content)
                 (get_default docs ''personal'' []))
      in ''Use the following personal notes to''
         @ ''answer the user'' @ APOS @ ''s question.''
         @ ''Do not include any raw personal notes''
         @ ''or reference material in your response:'' @ NL @ NL
         @ personal_content @ NL @ NL @ ''User'' @ APOS @ ''s question: '' @ prompt)"

definition org_stop_message :: message where
  "org_stop_message =
     msg graph_agent_name (''Ending the chat as '' @ ''no relevant answer can be provided.'')"

definition personal_stop_message :: message where
  "personal_stop_message =
     msg text_agent_name (''Ending the chat as no helpful'' @ ''answer can be provided.'')"

text \<open>Lines 170-175 and 197-202: \<open>response.chat_history\<close> after the stall check.\<close>

definition append_if_stopped :: "message \<Rightarrow> message list \<Rightarrow> error + message list" where
  "append_if_stopped notice chat_history =
     (case should_stop chat_history of
        Inl e \<Rightarrow> Inl e
      | Inr stop \<Rightarrow> Inr (if stop then chat_history @ [notice] else chat_history))"

text \<open>Lines 144-202: the two branches, up to \<open>response.chat_history\<close>.\<close>

definition response_history :: "docs \<Rightarrow> initiate_chat \<Rightarrow> string \<Rightarrow> error + message list" where
  "response_history docs chat prompt =
     (if is_org_related prompt
      then (case chat graph_agent_name (org_final_prompt docs prompt) of
              Inl e \<Rightarrow> Inl e
            | Inr chat_history \<Rightarrow> append_if_stopped org_stop_message chat_history)
      else (case chat text_agent_name (personal_final_prompt docs prompt) of
              Inl e \<Rightarrow> Inl e
            | Inr chat_history \<Rightarrow> append_if_stopped personal_stop_message chat_history))"

text \<open>Lines 205-212: the clean-up of the history.\<close>

definition LEAK_MARKERS :: "string list" where
  "LEAK_MARKERS = [FENCE @ ''mermaid'', ''# personal'', ''based on the following'',
                   ''use the following'']"

fun filter_history :: "message list \<Rightarrow> message list" where
  "filter_history [] = []"
| "filter_history (m # ms) =
     (if \<not> any (\<lambda>keyword. str_in keyword (lower (get_default m ''content'' []))) LEAK_MARKERS
      then m # filter_history ms
      else filter_history ms)"

definition generate_response :: "filesystem \<Rightarrow> initiate_chat \<Rightarrow> string \<Rightarrow> error + message list" where
  "generate_response fs chat prompt =
     (case load_documents fs of
        Inl e \<Rightarrow> Inl e
      | Inr docs \<Rightarrow>
          (case response_history docs chat prompt of
             Inl e \<Rightarrow> Inl e
           | Inr chat_history \<Rightarrow> Inr (filter_history chat_history)))"

text \<open>
  The branch a prompt takes, for stating properties of \<open>generate_response\<close>: the agent
  it talks to, the prompt it sends and the notice it appends on a stall.
\<close>

definition active_agent :: "string \<Rightarrow> string" where
  "active_agent prompt = (if is_org_related prompt then graph_agent_name else text_agent_name)"

definition final_prompt :: "docs \<Rightarrow> string \<Rightarrow> string" where
  "final_prompt docs prompt =
     (if is_org_related prompt then org_final_prompt docs prompt
      else personal_final_prompt docs prompt)"

definition stop_message :: "string \<Rightarrow> message" where
  "stop_message prompt =
     (if is_org_related prompt then org_stop_message else personal_stop_message)"

section \<open>Facts about the string primitives\<close>

lemma startswith_prefix: "startswith s k \<longleftrightarrow> prefix k s"
  by (induction s k rule: startswith.induct) auto

lemma str_in_sublist: "str_in k s \<longleftrightarrow> sublist k s"
  by (induction s) (simp_all add: startswith_prefix sublist_Cons_right)

lemma any_iff: "any p xs \<longleftrightarrow> (\<exists>x\<in>set xs. p x)"
  by (induction xs) simp_all

lemma all_iff: "all p xs \<longleftrightarrow> (\<forall>x\<in>set xs. p x)"
  by (induction xs) simp_all

lemma length_lower: "length (lower s) = length s"
  by (simp add: lower_def)

section \<open>The prompt classifier\<close>

text \<open>
  C1. A prompt is organization-related exactly when some keyword of the organization
  keyword list is a substring of the lower-cased prompt, and personal-related
  otherwise; the empty prompt is personal-related.
\<close>

theorem is_org_related_iff:
  "(is_org_related p \<longleftrightarrow> (\<exists>k\<in>set ORG_KEYWORDS. sublist k (lower p)))
   \<and> \<not> is_org_related []"
proof
  show "is_org_related p \<longleftrightarrow> (\<exists>k\<in>set ORG_KEYWORDS. sublist k (lower p))"
    by (simp add: is_org_related_def any_iff str_in_sublist)
  show "\<not> is_org_related []"
    by (simp add: is_org_related_def lower_def ORG_KEYWORDS_def)
qed

theorem is_org_related_iff_witness:
  "is_org_related ''Who does the engineering Manager report to?''
   \<and> (\<exists>k\<in>set ORG_KEYWORDS. sublist k (lower ''Who does the engineering Manager report to?''))
   \<and> \<not> is_org_related []"
proof -
  have "is_org_related ''Who does the engineering Manager report to?''"
    by code_simp
  with is_org_related_iff [of "''Who does the engineering Manager report to?''"]
  show ?thesis by blast
qed

section \<open>Avatars\<close>

lemma get_avatar_known:
  "get_avatar ''user_proxy'' = Inr BRAIN"
  "get_avatar ''user'' = Inr WOMAN_OFFICE_WORKER"
  "get_avatar ''TextRAG_Agent'' = Inr WOMAN_OFFICE_WORKER"
  "get_avatar ''GraphRAG_Agent'' = Inr WOMAN_OFFICE_WORKER"
  by (simp_all add: get_avatar_def)

lemma get_avatar_unknown:
  "role \<notin> {''user_proxy'', ''user'', ''TextRAG_Agent'', ''GraphRAG_Agent''}
   \<Longrightarrow> get_avatar role = Inl (AttributeError ''USER_IMAGE'')"
  by (simp add: get_avatar_def Config_USER_IMAGE_def)

text \<open>
  C8. Avatar selection is meant to be total, with a default avatar for every
  unrecognized role. The four known roles have their avatars (\<open>get_avatar_known\<close>), but
  the default is read from \<open>Config.USER_IMAGE\<close>, which \<open>Config\<close> does not define: for the
  role \<open>assistant\<close> the call raises AttributeError.
\<close>

theorem get_avatar_unrecognized_raises:
  "get_avatar ''assistant'' = Inl (AttributeError ''USER_IMAGE'')"
  by (simp add: get_avatar_def Config_USER_IMAGE_def)

section \<open>The stall detector\<close>

lemma last_few_of_no_agent:
  "\<forall>m\<in>set ms. \<exists>r. map_of m ''role'' = Some r \<and> r \<notin> set agent_roles
   \<Longrightarrow> last_few_of ms = Inr []"
  by (induction ms) (auto simp: getitem_def)

lemma should_stop_no_agent:
  "\<forall>m\<in>set (last3 h). \<exists>r. map_of m ''role'' = Some r \<and> r \<notin> set agent_roles
   \<Longrightarrow> should_stop h = Inr True"
  by (simp add: should_stop_def last_few_of_no_agent)

text \<open>
  What the check computes on a history whose last three messages have both keys: every
  agent message among the last three contains a phrase exactly as the list writes it.
\<close>

lemma last_few_of_keyed:
  assumes "\<forall>m\<in>set ms. \<exists>r c. map_of m ''role'' = Some r \<and> map_of m ''content'' = Some c"
  shows "last_few_of ms =
     Inr (map (\<lambda>m. lower (strip (get_default m ''content'' [])))
            (filter (\<lambda>m. get_default m ''role'' [] \<in> set agent_roles) ms))"
  using assms
  by (induction ms) (auto simp: getitem_def get_default_def)

lemma should_stop_keyed:
  assumes "\<forall>m\<in>set (last3 h). \<exists>r c. map_of m ''role'' = Some r \<and> map_of m ''content'' = Some c"
  shows "should_stop h =
     Inr (\<forall>m\<in>set (last3 h). get_default m ''role'' [] \<in> set agent_roles \<longrightarrow>
            (\<exists>p\<in>set TERMINATION_PHRASES. sublist p (lower (strip (get_default m ''content'' [])))))"
  by (auto simp: should_stop_def last_few_of_keyed [OF assms] all_iff any_iff str_in_sublist)

lemma should_stop_three_apologies:
  "should_stop (replicate 3 (msg ''TextRAG_Agent'' ''I am sorry, please clarify'')) = Inr True"
  by code_simp

text \<open>
  C2. The stall detector is meant to match the generic-failure phrases without regard
  to case. It lower-cases the response and leaves the phrases as they are, so a phrase
  with a capital letter matches nothing: one agent message \<open>I am sorry\<close>, which is a
  phrase of the list, does not stop the chat.
\<close>

theorem should_stop_capital_phrase:
  "should_stop [msg ''TextRAG_Agent'' ''I am sorry''] = Inr False"
  by code_simp

section \<open>The history sanitizer\<close>

lemma filter_history_filter:
  "filter_history h =
     filter (\<lambda>m. \<not> any (\<lambda>keyword. str_in keyword (lower (get_default m ''content'' [])))
                        LEAK_MARKERS) h"
  by (induction h) simp_all

lemma filter_history_append:
  "filter_history (a @ b) = filter_history a @ filter_history b"
  by (simp add: filter_history_filter)

lemma filter_history_org_stop: "filter_history [org_stop_message] = [org_stop_message]"
  by code_simp

lemma filter_history_personal_stop:
  "filter_history [personal_stop_message] = [personal_stop_message]"
  by code_simp

lemma keeps_stop_messages:
  "filter_history (h @ [org_stop_message]) = filter_history h @ [org_stop_message]"
  "filter_history (h @ [personal_stop_message]) = filter_history h @ [personal_stop_message]"
  by (simp_all only: filter_history_append filter_history_org_stop
      filter_history_personal_stop)

text \<open>
  C3. The sanitizer returns the messages of the history, in their order, without
  exactly those whose lower-cased content contains one of the four leak markers; a
  message whose content is the mermaid fence with the one line \<open>graph TD\<close> is dropped.
\<close>

theorem filter_history_drops_leaks:
  "filter_history h =
     filter (\<lambda>m. \<not> (\<exists>k\<in>set LEAK_MARKERS. sublist k (lower (get_default m ''content'' [])))) h
   \<and> subseq (filter_history h) h
   \<and> (get_default m ''content'' [] = FENCE_OPEN @ ''graph TD'' @ NL @ FENCE
        \<longrightarrow> m \<notin> set (filter_history h))"
proof -
  have eq: "filter_history h =
     filter (\<lambda>m. \<not> (\<exists>k\<in>set LEAK_MARKERS. sublist k (lower (get_default m ''content'' [])))) h"
    by (simp add: filter_history_filter any_iff str_in_sublist)
  have emb: "subseq (filter_history h) h"
    by (simp add: eq)
  have "str_in (FENCE @ ''mermaid'') (lower (FENCE_OPEN @ ''graph TD'' @ NL @ FENCE))"
    by code_simp
  then have "\<exists>k\<in>set LEAK_MARKERS. sublist k (lower (FENCE_OPEN @ ''graph TD'' @ NL @ FENCE))"
    by (auto simp: LEAK_MARKERS_def str_in_sublist)
  then have "get_default m ''content'' [] = FENCE_OPEN @ ''graph TD'' @ NL @ FENCE
        \<longrightarrow> m \<notin> set (filter_history h)"
    by (simp add: eq)
  with eq emb show ?thesis by blast
qed

theorem filter_history_drops_leaks_witness:
  "filter_history [msg ''user'' ''hi'', msg ''GraphRAG_Agent'' (FENCE_OPEN @ ''graph TD'' @ NL @ FENCE),
                   msg ''GraphRAG_Agent'' ''Ann leads the team'']
     = [msg ''user'' ''hi'', msg ''GraphRAG_Agent'' ''Ann leads the team'']
   \<and> msg ''GraphRAG_Agent'' (FENCE_OPEN @ ''graph TD'' @ NL @ FENCE)
       \<notin> set (filter_history [msg ''user'' ''hi'',
                   msg ''GraphRAG_Agent'' (FENCE_OPEN @ ''graph TD'' @ NL @ FENCE),
                   msg ''GraphRAG_Agent'' ''Ann leads the team''])"
proof -
  let ?m = "msg ''GraphRAG_Agent'' (FENCE_OPEN @ ''graph TD'' @ NL @ FENCE)"
  let ?h = "[msg ''user'' ''hi'', ?m, msg ''GraphRAG_Agent'' ''Ann leads the team'']"
  have c: "get_default ?m ''content'' [] = FENCE_OPEN @ ''graph TD'' @ NL @ FENCE"
    by (simp add: get_default_def msg_def)
  have e: "filter_history ?h = [msg ''user'' ''hi'', msg ''GraphRAG_Agent'' ''Ann leads the team'']"
    by code_simp
  from filter_history_drops_leaks [of ?h ?m] c have n: "?m \<notin> set (filter_history ?h)"
    by blast
  from e n show ?thesis by blast
qed

section \<open>generate_response and the stall notice\<close>

lemma response_history_stop:
  assumes "chat (active_agent prompt) (final_prompt docs prompt) = Inr h"
    and "should_stop h = Inr stop"
  shows "response_history docs chat prompt
         = Inr (if stop then h @ [stop_message prompt] else h)"
  using assms
  by (cases "is_org_related prompt")
    (simp_all add: response_history_def active_agent_def final_prompt_def stop_message_def
      append_if_stopped_def)

lemma stop_message_role: "map_of (stop_message prompt) ''role'' = Some (active_agent prompt)"
  by (simp add: stop_message_def active_agent_def org_stop_message_def
      personal_stop_message_def msg_def)

lemma filter_history_stop_message:
  "filter_history (h @ [stop_message prompt]) = filter_history h @ [stop_message prompt]"
  by (simp add: stop_message_def keeps_stop_messages)

text \<open>
  The example of C2: after three agent messages \<open>I am sorry, please clarify\<close> the check
  stops the chat, and the history gets exactly one more message, the notice of the
  active agent.
\<close>

lemma three_apologies_append_one_notice:
  assumes "chat (active_agent prompt) (final_prompt docs prompt)
           = Inr (replicate 3 (msg ''TextRAG_Agent'' ''I am sorry, please clarify''))"
  shows "response_history docs chat prompt
         = Inr (replicate 3 (msg ''TextRAG_Agent'' ''I am sorry, please clarify'')
                @ [stop_message prompt])"
  using response_history_stop [where chat = chat and prompt = prompt and docs = docs,
      OF assms should_stop_three_apologies]
  by simp

text \<open>
  C10. When none of the last three messages of the returned history has an agent role,
  \<open>should_stop\<close> is true, since its check ranges over no response at all, and
  \<open>generate_response\<close> appends the notice of the active agent, which the sanitizer
  keeps.
\<close>

theorem no_agent_roles_always_stops:
  assumes "\<forall>m\<in>set (last3 h). \<exists>r. map_of m ''role'' = Some r \<and> r \<notin> set agent_roles"
    and "load_documents fs = Inr docs"
    and "chat (active_agent prompt) (final_prompt docs prompt) = Inr h"
  shows "should_stop h = Inr True
    \<and> response_history docs chat prompt = Inr (h @ [stop_message prompt])
    \<and> generate_response fs chat prompt = Inr (filter_history h @ [stop_message prompt])"
proof -
  have stop: "should_stop h = Inr True"
    using assms(1) by (rule should_stop_no_agent)
  have raw: "response_history docs chat prompt = Inr (h @ [stop_message prompt])"
    using response_history_stop [where chat = chat and prompt = prompt and docs = docs,
        OF assms(3) stop]
    by simp
  have "generate_response fs chat prompt = Inr (filter_history h @ [stop_message prompt])"
    using assms(2) raw
    by (simp add: generate_response_def filter_history_stop_message)
  with stop raw show ?thesis by simp
qed

theorem no_agent_roles_always_stops_witness:
  "should_stop [msg ''user_proxy'' ''hello'', msg ''assistant'' ''Hi there''] = Inr True
   \<and> generate_response (\<lambda>p. None)
        (\<lambda>a m. Inr [msg ''user_proxy'' ''hello'', msg ''assistant'' ''Hi there'']) ''hello''
      = Inr [msg ''user_proxy'' ''hello'', msg ''assistant'' ''Hi there'',
             msg ''TextRAG_Agent'' ''Ending the chat as no helpfulanswer can be provided.'']"
proof -
  let ?h = "[msg ''user_proxy'' ''hello'', msg ''assistant'' ''Hi there'']"
  let ?chat = "\<lambda>a m. Inr ?h :: error + message list"
  have a: "\<forall>m\<in>set (last3 ?h). \<exists>r. map_of m ''role'' = Some r \<and> r \<notin> set agent_roles"
    by (simp add: last3_def msg_def agent_roles_def)
  have b: "load_documents (\<lambda>p. None) = Inr [(''personal'', []), (''org'', [])]"
    by (simp add: load_documents_def base_dirs_def path_exists_def)
  have c: "?chat (active_agent ''hello'') (final_prompt [(''personal'', []), (''org'', [])] ''hello'')
           = Inr ?h"
    by simp
  have d: "filter_history ?h @ [stop_message ''hello'']
           = [msg ''user_proxy'' ''hello'', msg ''assistant'' ''Hi there'',
              msg ''TextRAG_Agent'' ''Ending the chat as no helpfulanswer can be provided.'']"
    by code_simp
  from no_agent_roles_always_stops [OF a b c] d show ?thesis by simp
qed

section \<open>Rendering the history\<close>


lemma dropWhile_rev_dropWhile:
  "dropWhile P (rev (dropWhile P (rev (dropWhile P s)))) = rev (dropWhile P (rev (dropWhile P s)))"
proof (cases "dropWhile P s")
  case Nil
  show ?thesis unfolding Nil by simp
next
  case (Cons x xs)
  then have nx: "\<not> P x"
    by (metis hd_dropWhile list.sel(1) list.distinct(1))
  have "dropWhile P (rev (x # xs)) = dropWhile P (rev xs) @ [x]"
    using nx by (simp add: dropWhile_append3)
  then show ?thesis
    unfolding Cons using nx by simp
qed

lemma strip_idem: "strip (strip s) = strip s"
  by (simp add: strip_def dropWhile_rev_dropWhile)

lemma show_loop_Cons_cases:
  assumes "show_loop n ((i, entry) # es) u = (err, u')"
  shows "(strip (get_default entry ''content'' []) = [] \<and> show_loop n es u = (err, u'))
    \<or> (strip (get_default entry ''content'' []) \<noteq> [] \<and> rendered u' = rendered u
        \<and> (rag_messages u' = rag_messages u
            \<or> (\<exists>a. rag_messages u' = rag_messages u
                  @ [(get_default entry ''role'' ''assistant'',
                      strip (get_default entry ''content'' []), a)])))
    \<or> (strip (get_default entry ''content'' []) \<noteq> []
        \<and> (\<exists>r a. show_loop n es
               (emit i r (u\<lparr>rag_messages := rag_messages u
                  @ [(get_default entry ''role'' ''assistant'',
                      strip (get_default entry ''content'' []), a)]\<rparr>)) = (err, u')))"
  using assms
  by (auto simp: Let_def split: sum.splits if_splits)

lemma show_loop_rendered:
  "show_loop n es u = (err, u') \<Longrightarrow>
   \<exists>new. rendered u' = rendered u @ new
     \<and> (\<forall>p\<in>set new. \<exists>e. (fst p, e) \<in> set es \<and> strip (get_default e ''content'' []) \<noteq> [])"
proof (induction es arbitrary: u)
  case Nil
  then show ?case by simp
next
  case (Cons ie es)
  obtain i entry where ie: "ie = (i, entry)" by (cases ie)
  from Cons.prems have "show_loop n ((i, entry) # es) u = (err, u')"
    by (simp add: ie)
  from show_loop_Cons_cases [OF this] show ?case
  proof (elim disjE conjE exE)
    assume "show_loop n es u = (err, u')"
    from Cons.IH [OF this] show ?thesis by (fastforce simp: ie)
  next
    assume "rendered u' = rendered u" and "rag_messages u' = rag_messages u"
    then show ?thesis by simp
  next
    fix a
    assume "rendered u' = rendered u"
    then show ?thesis by simp
  next
    fix r a
    assume ne: "strip (get_default entry ''content'' []) \<noteq> []"
      and "show_loop n es
             (emit i r (u\<lparr>rag_messages := rag_messages u
                @ [(get_default entry ''role'' ''assistant'',
                    strip (get_default entry ''content'' []), a)]\<rparr>)) = (err, u')"
    from Cons.IH [OF this(2)] obtain new where
      new: "rendered u' = rendered u @ (i, r) # new"
        "\<forall>p\<in>set new. \<exists>e. (fst p, e) \<in> set es \<and> strip (get_default e ''content'' []) \<noteq> []"
      by (auto simp: emit_def)
    from new(2) ne have "\<forall>p\<in>set ((i, r) # new).
        \<exists>e. (fst p, e) \<in> set (ie # es) \<and> strip (get_default e ''content'' []) \<noteq> []"
      by (fastforce simp: ie)
    with new(1) show ?thesis by blast
  qed
qed

lemma show_loop_rag_messages:
  "show_loop n es u = (err, u') \<Longrightarrow>
   \<exists>new. rag_messages u' = rag_messages u @ new
     \<and> (\<forall>p\<in>set new. fst (snd p) \<noteq> [] \<and> strip (fst (snd p)) = fst (snd p))"
proof (induction es arbitrary: u)
  case Nil
  then show ?case by simp
next
  case (Cons ie es)
  obtain i entry where ie: "ie = (i, entry)" by (cases ie)
  from Cons.prems have "show_loop n ((i, entry) # es) u = (err, u')"
    by (simp add: ie)
  from show_loop_Cons_cases [OF this] show ?case
  proof (elim disjE conjE exE)
    assume "show_loop n es u = (err, u')"
    from Cons.IH [OF this] show ?thesis .
  next
    assume "rag_messages u' = rag_messages u"
    then show ?thesis by simp
  next
    fix a
    assume "strip (get_default entry ''content'' []) \<noteq> []"
      and "rag_messages u' = rag_messages u
                  @ [(get_default entry ''role'' ''assistant'',
                      strip (get_default entry ''content'' []), a)]"
    then show ?thesis by (simp add: strip_idem)
  next
    fix r a
    assume ne: "strip (get_default entry ''content'' []) \<noteq> []"
      and "show_loop n es
             (emit i r (u\<lparr>rag_messages := rag_messages u
                @ [(get_default entry ''role'' ''assistant'',
                    strip (get_default entry ''content'' []), a)]\<rparr>)) = (err, u')"
    from Cons.IH [OF this(2)] obtain new where
      new: "rag_messages u' = rag_messages u
              @ (get_default entry ''role'' ''assistant'',
                 strip (get_default entry ''content'' []), a) # new"
        "\<forall>p\<in>set new. fst (snd p) \<noteq> [] \<and> strip (fst (snd p)) = fst (snd p)"
      by (auto simp: emit_def)
    from new(2) ne have "\<forall>p\<in>set ((get_default entry ''role'' ''assistant'',
                 strip (get_default entry ''content'' []), a) # new).
           fst (snd p) \<noteq> [] \<and> strip (fst (snd p)) = fst (snd p)"
      by (simp add: strip_idem)
    with new(1) show ?thesis by blast
  qed
qed

lemma in_set_enumerate:
  "(i, e) \<in> set (zip [0..<length h] h) \<Longrightarrow> i < length h \<and> e = h ! i"
  by (auto simp: set_zip)

text \<open>
  C7. A message whose content is empty after trimming is never rendered, whatever its
  role: every call on the container made by \<open>show_chat_history\<close> renders a history
  entry whose trimmed content is not empty, and every entry it appends to the session
  messages has non-empty trimmed content. This holds also for a run that an exception
  ends.
\<close>

theorem show_chat_history_skips_empty:
  assumes "show_chat_history h u = (err, u')"
  shows "(\<forall>i r. (i, r) \<in> set (drop (length (rendered u)) (rendered u'))
            \<longrightarrow> i < length h \<and> strip (get_default (h ! i) ''content'' []) \<noteq> [])
    \<and> (\<forall>role c a. (role, c, a) \<in> set (drop (length (rag_messages u)) (rag_messages u'))
            \<longrightarrow> strip c \<noteq> [])"
proof -
  from assms have run: "show_loop (length h) (zip [0..<length h] h) u = (err, u')"
    by (simp add: show_chat_history_def)
  from show_loop_rendered [OF run] obtain new where
    new: "rendered u' = rendered u @ new"
      "\<forall>p\<in>set new. \<exists>e. (fst p, e) \<in> set (zip [0..<length h] h)
          \<and> strip (get_default e ''content'' []) \<noteq> []"
    by blast
  have a: "\<forall>i r. (i, r) \<in> set (drop (length (rendered u)) (rendered u'))
            \<longrightarrow> i < length h \<and> strip (get_default (h ! i) ''content'' []) \<noteq> []"
    using new by (fastforce dest: in_set_enumerate)
  from show_loop_rag_messages [OF run] obtain new' where
    new': "rag_messages u' = rag_messages u @ new'"
      "\<forall>p\<in>set new'. fst (snd p) \<noteq> [] \<and> strip (fst (snd p)) = fst (snd p)"
    by blast
  have b: "\<forall>role c a. (role, c, a) \<in> set (drop (length (rag_messages u)) (rag_messages u'))
            \<longrightarrow> strip c \<noteq> []"
    using new' by fastforce
  from a b show ?thesis by blast
qed

theorem show_chat_history_skips_empty_witness:
  "show_chat_history
     [msg ''user'' ''hi'', msg ''user'' ''  '', msg ''GraphRAG_Agent'' '' a  b '']
     \<lparr>rag_messages = [], rendered = []\<rparr>
   = (None,
      \<lparr>rag_messages = [(''user'', ''hi'', WOMAN_OFFICE_WORKER),
                       (''GraphRAG_Agent'', ''a  b'', WOMAN_OFFICE_WORKER)],
       rendered = [(0, Write ''user'' WOMAN_OFFICE_WORKER ''hi''),
                   (2, Write_stream ''assistant'' WOMAN_OFFICE_WORKER [''a '', ''b ''])]\<rparr>)
   \<and> strip (get_default
        ([msg ''user'' ''hi'', msg ''user'' ''  '', msg ''GraphRAG_Agent'' '' a  b ''] ! 2)
        ''content'' []) \<noteq> []
   \<and> strip ''a  b'' \<noteq> []"
proof -
  let ?h = "[msg ''user'' ''hi'', msg ''user'' ''  '', msg ''GraphRAG_Agent'' '' a  b '']"
  let ?u = "\<lparr>rag_messages = [], rendered = []\<rparr>"
  let ?u' = "\<lparr>rag_messages = [(''user'', ''hi'', WOMAN_OFFICE_WORKER),
                       (''GraphRAG_Agent'', ''a  b'', WOMAN_OFFICE_WORKER)],
       rendered = [(0, Write ''user'' WOMAN_OFFICE_WORKER ''hi''),
                   (2, Write_stream ''assistant'' WOMAN_OFFICE_WORKER [''a '', ''b ''])]\<rparr>"
  have run: "show_chat_history ?h ?u = (None, ?u')"
    by code_simp
  note inv = show_chat_history_skips_empty [OF run]
  have r: "(2, Write_stream ''assistant'' WOMAN_OFFICE_WORKER [''a '', ''b ''])
           \<in> set (drop (length (rendered ?u)) (rendered ?u'))"
    by simp
  have m: "(''GraphRAG_Agent'', ''a  b'', WOMAN_OFFICE_WORKER)
           \<in> set (drop (length (rag_messages ?u)) (rag_messages ?u'))"
    by simp
  from inv r have a: "strip (get_default (?h ! 2) ''content'' []) \<noteq> []"
    by blast
  from inv m have b: "strip ''a  b'' \<noteq> []"
    by blast
  from run a b show ?thesis by blast
qed

section \<open>The diagram extractor\<close>


lemma prefix_append_short:
  "prefix k (xs @ ys) \<Longrightarrow> length k \<le> length xs \<Longrightarrow> prefix k xs"
  by (rule prefix_length_prefix [where xs = "xs @ ys"]) simp_all

lemma startswith_decompose: "startswith s k \<Longrightarrow> s = k @ drop (length k) s"
  by (auto simp: startswith_prefix prefix_def)

lemma FENCE_not_Nil: "FENCE \<noteq> []"
  by (simp add: FENCE_def)

lemma FENCE_snoc: "FENCE = butlast FENCE @ [last FENCE]"
  by (simp add: FENCE_def)

lemma lazy_body_decompose:
  "lazy_body s = Some (body, rest) \<Longrightarrow> s = body @ FENCE @ rest"
proof (induction s arbitrary: body)
  case Nil
  then show ?case by simp
next
  case (Cons c cs)
  show ?case
  proof (cases "startswith (c # cs) FENCE")
    case True
    with Cons.prems have "body = []" "rest = drop (length FENCE) (c # cs)"
      by simp_all
    with startswith_decompose [OF True] show ?thesis by simp
  next
    case False
    with Cons.prems obtain body' where "lazy_body cs = Some (body', rest)" "body = c # body'"
      by (auto split: option.splits)
    with Cons.IH show ?thesis by simp
  qed
qed

lemma lazy_body_first:
  "lazy_body s = Some (body, rest) \<Longrightarrow> \<not> sublist FENCE (body @ butlast FENCE)"
proof (induction s arbitrary: body)
  case Nil
  then show ?case by simp
next
  case (Cons c cs)
  show ?case
  proof (cases "startswith (c # cs) FENCE")
    case True
    with Cons.prems have "body = []" by simp
    then show ?thesis
      by (auto simp: FENCE_def dest: sublist_length_le)
  next
    case False
    with Cons.prems obtain body' where b: "lazy_body cs = Some (body', rest)" "body = c # body'"
      by (auto split: option.splits)
    from lazy_body_decompose [OF b(1)] have cs: "cs = body' @ FENCE @ rest" .
    have "\<not> prefix FENCE (c # body' @ butlast FENCE)"
    proof
      assume "prefix FENCE (c # body' @ butlast FENCE)"
      then have "prefix FENCE ((c # body' @ butlast FENCE) @ [last FENCE] @ rest)"
        using prefix_prefix by blast
      then have "prefix FENCE (c # cs)"
        using FENCE_snoc by (simp add: cs) (metis append.assoc append_Cons append_Nil)
      with False show False by (simp add: startswith_prefix)
    qed
    with Cons.IH [OF b(1)] show ?thesis
      by (simp add: b(2) sublist_Cons_right)
  qed
qed

lemma lazy_body_None: "lazy_body s = None \<longleftrightarrow> \<not> sublist FENCE s"
proof (induction s)
  case Nil
  then show ?case by (simp add: FENCE_not_Nil)
next
  case (Cons c cs)
  then show ?case
    by (auto simp: startswith_prefix sublist_Cons_right split: option.splits)
qed

lemma lazy_body_Some:
  "\<not> sublist FENCE (body @ butlast FENCE) \<Longrightarrow> lazy_body (body @ FENCE @ rest) = Some (body, rest)"
proof (induction body)
  case Nil
  obtain c cs where f: "FENCE = c # cs"
    using FENCE_not_Nil by (cases FENCE) auto
  have "startswith (FENCE @ rest) FENCE"
    by (simp add: startswith_prefix)
  then show ?case
    by (simp add: f)
next
  case (Cons c body)
  from Cons.prems have np: "\<not> prefix FENCE (c # body @ butlast FENCE)"
    and ns: "\<not> sublist FENCE (body @ butlast FENCE)"
    by (simp_all add: sublist_Cons_right)
  have "\<not> prefix FENCE ((c # body @ butlast FENCE) @ [last FENCE] @ rest)"
  proof
    assume "prefix FENCE ((c # body @ butlast FENCE) @ [last FENCE] @ rest)"
    then have "prefix FENCE (c # body @ butlast FENCE)"
      by (rule prefix_append_short) (simp add: FENCE_def)
    with np show False ..
  qed
  then have "\<not> startswith (c # body @ FENCE @ rest) FENCE"
    using FENCE_snoc by (simp add: startswith_prefix) (metis append.assoc append_Cons append_Nil)
  with Cons.IH [OF ns] show ?case by simp
qed

lemma length_FENCE_OPEN: "length FENCE_OPEN = 11"
  by (simp add: FENCE_OPEN_def FENCE_def)

lemma FENCE_OPEN_snoc: "FENCE_OPEN = butlast FENCE_OPEN @ [last FENCE_OPEN]"
  by (simp add: FENCE_OPEN_def FENCE_def)

lemma sublist_FENCE_OPEN: "sublist FENCE FENCE_OPEN"
  by (simp add: FENCE_OPEN_def)

lemma match_at_decompose:
  assumes "match_at s = Some (body, rest)"
  shows "s = FENCE_OPEN @ body @ FENCE @ rest" and "\<not> sublist FENCE (body @ butlast FENCE)"
proof -
  from assms have st: "startswith s FENCE_OPEN"
    and lb: "lazy_body (drop (length FENCE_OPEN) s) = Some (body, rest)"
    by (auto simp: match_at_def split: if_splits)
  from startswith_decompose [OF st] lazy_body_decompose [OF lb]
  show "s = FENCE_OPEN @ body @ FENCE @ rest" by simp
  from lazy_body_first [OF lb] show "\<not> sublist FENCE (body @ butlast FENCE)" .
qed

lemma match_at_open: "match_at (FENCE_OPEN @ t) = lazy_body t"
  by (simp add: match_at_def startswith_prefix)

lemma match_at_no_prefix: "\<not> prefix FENCE_OPEN s \<Longrightarrow> match_at s = None"
  by (simp add: match_at_def startswith_prefix)

lemma findall_Nil: "findall [] = []"
  by (simp add: findall.simps match_at_def FENCE_OPEN_def FENCE_def)

lemma findall_no_match:
  "\<forall>pre body post. s \<noteq> pre @ FENCE_OPEN @ body @ FENCE @ post \<Longrightarrow> findall s = []"
proof (induction s)
  case Nil
  show ?case by (rule findall_Nil)
next
  case (Cons c cs)
  have none: "match_at (c # cs) = None"
  proof (cases "match_at (c # cs)")
    case None
    then show ?thesis .
  next
    case (Some br)
    obtain body rest where "br = (body, rest)" by (cases br)
    with Some match_at_decompose(1) [of "c # cs" body rest]
    have "c # cs = [] @ FENCE_OPEN @ body @ FENCE @ rest" by simp
    with Cons.prems show ?thesis by blast
  qed
  have "\<forall>pre body post. cs \<noteq> pre @ FENCE_OPEN @ body @ FENCE @ post"
  proof (intro allI notI)
    fix pre body post
    assume "cs = pre @ FENCE_OPEN @ body @ FENCE @ post"
    then have "c # cs = (c # pre) @ FENCE_OPEN @ body @ FENCE @ post" by simp
    with Cons.prems show False by blast
  qed
  from Cons.IH [OF this] none show ?case
    by (simp add: findall.simps [of "c # cs"])
qed

lemma findall_no_open: "\<not> sublist FENCE_OPEN s \<Longrightarrow> findall s = []"
  by (rule findall_no_match) (auto simp: sublist_def)

lemma findall_skip:
  "\<not> sublist FENCE_OPEN (pre @ butlast FENCE_OPEN)
   \<Longrightarrow> findall (pre @ FENCE_OPEN @ t) = findall (FENCE_OPEN @ t)"
proof (induction pre)
  case Nil
  show ?case by simp
next
  case (Cons c pre)
  from Cons.prems have np: "\<not> prefix FENCE_OPEN (c # pre @ butlast FENCE_OPEN)"
    and ns: "\<not> sublist FENCE_OPEN (pre @ butlast FENCE_OPEN)"
    by (simp_all add: sublist_Cons_right)
  have eqn: "c # pre @ FENCE_OPEN @ t = (c # pre @ butlast FENCE_OPEN) @ [last FENCE_OPEN] @ t"
    using FENCE_OPEN_snoc by (metis append.assoc append_Cons)
  have "\<not> prefix FENCE_OPEN (c # pre @ FENCE_OPEN @ t)"
  proof
    assume "prefix FENCE_OPEN (c # pre @ FENCE_OPEN @ t)"
    then have "prefix FENCE_OPEN ((c # pre @ butlast FENCE_OPEN) @ [last FENCE_OPEN] @ t)"
      by (simp only: eqn)
    then have "prefix FENCE_OPEN (c # pre @ butlast FENCE_OPEN)"
      by (rule prefix_append_short) (simp add: length_FENCE_OPEN)
    with np show False ..
  qed
  then have "match_at (c # pre @ FENCE_OPEN @ t) = None"
    by (rule match_at_no_prefix)
  then have "findall ((c # pre) @ FENCE_OPEN @ t) = findall (pre @ FENCE_OPEN @ t)"
    by (simp add: findall.simps [of "c # pre @ FENCE_OPEN @ t"])
  with Cons.IH [OF ns] show ?case by simp
qed

lemma findall_open_closed:
  "\<not> sublist FENCE (body @ butlast FENCE)
   \<Longrightarrow> findall (FENCE_OPEN @ body @ FENCE @ post) = body # findall post"
  by (simp add: findall.simps [of "FENCE_OPEN @ body @ FENCE @ post"] match_at_open
      lazy_body_Some)

lemma findall_open_unclosed:
  assumes "\<not> sublist FENCE rest"
  shows "findall (FENCE_OPEN @ rest) = []"
proof (rule findall_no_match, intro allI notI)
  fix pre body post
  assume eq: "FENCE_OPEN @ rest = pre @ FENCE_OPEN @ body @ FENCE @ post"
  then have "FENCE_OPEN @ rest = (pre @ FENCE_OPEN @ body) @ FENCE @ post" by simp
  moreover have "length FENCE_OPEN \<le> length (pre @ FENCE_OPEN @ body)" by simp
  ultimately obtain u where "rest = u @ FENCE @ post"
    by (metis append_eq_append_conv_if append_take_drop_id)
  with assms show False by (simp add: sublist_def) blast
qed

lemma findall_blocks_no_fence:
  "b \<in> set (findall s) \<Longrightarrow> \<not> sublist FENCE (b @ butlast FENCE)"
proof (induction s rule: findall.induct)
  case (1 s)
  show ?case
  proof (cases "match_at s")
    case None
    then have "findall s = (case s of [] \<Rightarrow> [] | c # cs \<Rightarrow> findall cs)"
      by (simp add: findall.simps [of s])
    with "1.prems" obtain c cs where s: "s = c # cs" "b \<in> set (findall cs)"
      by (cases s) auto
    from "1.IH" None s show ?thesis by blast
  next
    case (Some br)
    obtain body rest where br: "br = (body, rest)" by (cases br)
    with Some "1.prems" have "b = body \<or> b \<in> set (findall rest)"
      by (auto simp: findall.simps [of s])
    then show ?thesis
    proof
      assume "b = body"
      with match_at_decompose(2) [of s body rest] Some br show ?thesis by simp
    next
      assume "b \<in> set (findall rest)"
      with "1.IH" Some br show ?thesis by blast
    qed
  qed
qed

text \<open>
  C5, as the code has it. \<open>extract_mermaid_blocks\<close> returns the bodies as they stand in
  the text, not trimmed. A text without the opening marker gives no block. At the first
  opening marker: if no closing fence follows, the result is empty (an unterminated
  fence contributes nothing, and nothing after it can match); otherwise the first block
  is the text up to the first closing fence, and the scan goes on after that fence, so
  the blocks come in the order of the text.
\<close>

theorem extract_mermaid_blocks_scan:
  "(\<not> sublist FENCE_OPEN s \<longrightarrow> extract_mermaid_blocks s = [])
   \<and> (\<not> sublist FENCE_OPEN (pre @ butlast FENCE_OPEN) \<and> \<not> sublist FENCE rest
        \<longrightarrow> extract_mermaid_blocks (pre @ FENCE_OPEN @ rest) = [])
   \<and> (\<not> sublist FENCE_OPEN (pre @ butlast FENCE_OPEN) \<and> \<not> sublist FENCE (body @ butlast FENCE)
        \<longrightarrow> extract_mermaid_blocks (pre @ FENCE_OPEN @ body @ FENCE @ post)
            = body # extract_mermaid_blocks post)"
  by (simp add: extract_mermaid_blocks_def findall_no_open findall_skip findall_open_closed
      findall_open_unclosed)

text \<open>
  C6. A block returned by \<open>extract_mermaid_blocks\<close> contains no opening marker, and
  extracting from it again gives the empty list.
\<close>

theorem extracted_block_has_no_block:
  assumes "b \<in> set (extract_mermaid_blocks s)"
  shows "\<not> sublist FENCE_OPEN b \<and> extract_mermaid_blocks b = []"
proof -
  from assms have "\<not> sublist FENCE (b @ butlast FENCE)"
    by (simp add: extract_mermaid_blocks_def findall_blocks_no_fence)
  then have "\<not> sublist FENCE b"
    by (auto simp: sublist_append)
  then have "\<not> sublist FENCE_OPEN b"
    using sublist_FENCE_OPEN by (meson sublist_order.order_trans)
  then show ?thesis
    by (simp add: extract_mermaid_blocks_def findall_no_open)
qed

text \<open>
  C5 as stated fails: the body of a fence around the one line \<open>graph TD\<close> is returned
  with its line feed, which trimming would remove.
\<close>

theorem extract_mermaid_blocks_untrimmed:
  "extract_mermaid_blocks (FENCE_OPEN @ ''graph TD'' @ NL @ FENCE) = [''graph TD'' @ NL]
   \<and> strip (''graph TD'' @ NL) \<noteq> ''graph TD'' @ NL"
  by code_simp

theorem extract_mermaid_blocks_scan_witness:
  "extract_mermaid_blocks ''no fence here'' = []
   \<and> extract_mermaid_blocks (''abc'' @ FENCE_OPEN @ ''graph TD'') = []
   \<and> extract_mermaid_blocks (''abc'' @ FENCE_OPEN @ (''graph TD'' @ NL) @ FENCE @ ''xyz'')
       = [''graph TD'' @ NL]"
proof -
  have a: "\<not> sublist FENCE_OPEN ''no fence here''"
    by code_simp
  have b: "\<not> sublist FENCE_OPEN (''abc'' @ butlast FENCE_OPEN)"
    by code_simp
  have c: "\<not> sublist FENCE ''graph TD''"
    by code_simp
  have d: "\<not> sublist FENCE ((''graph TD'' @ NL) @ butlast FENCE)"
    by code_simp
  have e: "extract_mermaid_blocks ''xyz'' = []"
    by code_simp
  from extract_mermaid_blocks_scan
    [of "''no fence here''" "''abc''" "''graph TD''" "''graph TD'' @ NL" "''xyz''"]
    a b c d e
  show ?thesis by presburger
qed

theorem extracted_block_has_no_block_witness:
  "''graph TD'' @ NL \<in> set (extract_mermaid_blocks (FENCE_OPEN @ ''graph TD'' @ NL @ FENCE))
   \<and> \<not> sublist FENCE_OPEN (''graph TD'' @ NL)
   \<and> extract_mermaid_blocks (''graph TD'' @ NL) = []"
proof -
  have "extract_mermaid_blocks (FENCE_OPEN @ ''graph TD'' @ NL @ FENCE) = [''graph TD'' @ NL]"
    by code_simp
  then have a: "''graph TD'' @ NL
      \<in> set (extract_mermaid_blocks (FENCE_OPEN @ ''graph TD'' @ NL @ FENCE))"
    by simp
  from extracted_block_has_no_block [OF a] a show ?thesis by blast
qed

section \<open>The org-branch prompt\<close>


lemma lower_append: "lower (a @ b) = lower a @ lower b"
  by (simp add: lower_def)

lemma sublist_strip: "sublist (strip s) s"
proof -
  have "sublist (dropWhile isspace (rev (dropWhile isspace s))) (rev (dropWhile isspace s))"
    by (rule sublist_dropWhile)
  then have "sublist (strip s) (dropWhile isspace s)"
    by (simp add: strip_def sublist_rev_left)
  moreover have "sublist (dropWhile isspace s) s"
    by (rule sublist_dropWhile)
  ultimately show ?thesis
    by (meson sublist_order.order_trans)
qed

lemma org_final_prompt_single:
  assumes "mermaid_blocks_of docs = [b]"
  shows "org_final_prompt docs prompt =
     (''Based on the following'' @ '' organization charts,''
      @ ''answer the user'' @ APOS @ ''s question.''
      @ ''Only use this information to determine reporting lines,''
      @ ''structure, or team relationships.''
      @ ''Do not include any Mermaid diagrams or''
      @ ''raw reference material in your response:'' @ NL @ NL @ FENCE_OPEN)
     @ b @ (NL @ FENCE @ NL @ NL @ ''User'' @ APOS @ ''s question: '' @ prompt)"
  by (simp add: org_final_prompt_def assms)

lemma org_final_prompt_prefix:
  "prefix ''Based on the following'' (org_final_prompt docs prompt)"
  by (simp add: org_final_prompt_def Let_def)

lemma org_final_prompt_suffix: "suffix prompt (org_final_prompt docs prompt)"
proof -
  have "\<exists>front. org_final_prompt docs prompt = front @ prompt"
    unfolding org_final_prompt_def Let_def
    by (metis append.assoc)
  then show ?thesis
    by (auto simp: suffix_def)
qed

lemma lower_preamble: "lower ''Based on the following'' = ''based on the following''"
  by code_simp

text \<open>
  C4, as the code has it. For an organization-related prompt, when the org documents
  hold exactly one diagram block and its trimmed body is \<open>graph TD; A-->B\<close>, the prompt
  sent to the agent is the org-branch prompt; it contains \<open>graph TD; A-->B\<close>, starts
  with the preamble \<open>Based on the following\<close> written with a capital B, so that the phrase
  \<open>based on the following\<close> occurs in the lower-cased prompt, and ends with the user
  question.
\<close>

theorem org_final_prompt_contents:
  assumes "is_org_related prompt"
    and "mermaid_blocks_of docs = [b]"
    and "strip b = ''graph TD; A-->B''"
  shows "final_prompt docs prompt = org_final_prompt docs prompt
    \<and> sublist ''graph TD; A-->B'' (final_prompt docs prompt)
    \<and> prefix ''Based on the following'' (final_prompt docs prompt)
    \<and> sublist ''based on the following'' (lower (final_prompt docs prompt))
    \<and> suffix prompt (final_prompt docs prompt)"
proof -
  have fp: "final_prompt docs prompt = org_final_prompt docs prompt"
    using assms(1) by (simp add: final_prompt_def)
  have "sublist b (org_final_prompt docs prompt)"
    by (subst org_final_prompt_single [OF assms(2)]) (rule sublist_appendI)
  moreover have "sublist ''graph TD; A-->B'' b"
    using sublist_strip [of b] by (simp only: assms(3))
  ultimately have body: "sublist ''graph TD; A-->B'' (org_final_prompt docs prompt)"
    by (meson sublist_order.order_trans)
  obtain rest where rest: "org_final_prompt docs prompt = ''Based on the following'' @ rest"
    using org_final_prompt_prefix [of docs prompt] by (auto simp: prefix_def)
  have "lower (org_final_prompt docs prompt) = ''based on the following'' @ lower rest"
    by (simp only: rest lower_append lower_preamble)
  then have low: "sublist ''based on the following'' (lower (org_final_prompt docs prompt))"
    by (simp only: sublist_append_rightI)
  from fp body low org_final_prompt_prefix [of docs prompt] org_final_prompt_suffix [of prompt docs]
  show ?thesis by simp
qed

text \<open>
  C4 as stated fails: with one org document holding the diagram \<open>graph TD; A-->B\<close>, the
  org-branch prompt does not contain the phrase \<open>based on the following\<close> in lower case.
\<close>

theorem org_final_prompt_capital_preamble:
  "is_org_related ''Who is my manager?''
   \<and> mermaid_blocks_of [(''personal'', []),
        (''org'', [(''chart.md'', FENCE_OPEN @ ''graph TD; A-->B'' @ NL @ FENCE)])]
      = [''graph TD; A-->B'' @ NL]
   \<and> \<not> sublist ''based on the following''
        (org_final_prompt [(''personal'', []),
           (''org'', [(''chart.md'', FENCE_OPEN @ ''graph TD; A-->B'' @ NL @ FENCE)])]
           ''Who is my manager?'')"
  by code_simp

theorem org_final_prompt_contents_witness:
  "sublist ''graph TD; A-->B''
     (final_prompt [(''personal'', []),
        (''org'', [(''chart.md'', FENCE_OPEN @ ''graph TD; A-->B'' @ NL @ FENCE)])]
        ''Who is my manager?'')
   \<and> prefix ''Based on the following''
     (final_prompt [(''personal'', []),
        (''org'', [(''chart.md'', FENCE_OPEN @ ''graph TD; A-->B'' @ NL @ FENCE)])]
        ''Who is my manager?'')
   \<and> suffix ''Who is my manager?''
     (final_prompt [(''personal'', []),
        (''org'', [(''chart.md'', FENCE_OPEN @ ''graph TD; A-->B'' @ NL @ FENCE)])]
        ''Who is my manager?'')"
proof -
  let ?docs = "[(''personal'', []),
        (''org'', [(''chart.md'', FENCE_OPEN @ ''graph TD; A-->B'' @ NL @ FENCE)])]"
  have a: "is_org_related ''Who is my manager?''"
    by code_simp
  have b: "mermaid_blocks_of ?docs = [''graph TD; A-->B'' @ NL]"
    by code_simp
  have c: "strip (''graph TD; A-->B'' @ NL) = ''graph TD; A-->B''"
    by code_simp
  from org_final_prompt_contents [OF a b c] show ?thesis by blast
qed

section \<open>The document loader\<close>

lemma map_of_setitem: "map_of (setitem k v d) = (map_of d)(k \<mapsto> v)"
  by (induction d) auto

lemma setitem_same: "map_of d k = Some v \<Longrightarrow> setitem k v d = d"
  by (induction d) (auto split: if_splits)

lemma load_files_readable:
  assumes "\<forall>f\<in>set names. endswith f ''.md'' \<longrightarrow>
             (case fs (path_join path f) of Some (RegularFile (Some t)) \<Rightarrow> True | _ \<Rightarrow> False)"
  shows "\<exists>d'. load_files fs path names d = Inr d'
     \<and> map_of d' = (\<lambda>f. if f \<in> set names \<and> endswith f ''.md''
                          then (case fs (path_join path f) of
                                  Some (RegularFile (Some t)) \<Rightarrow> Some (universal_newlines t)
                                | _ \<Rightarrow> None)
                          else map_of d f)"
  using assms
proof (induction names arbitrary: d)
  case Nil
  show ?case by simp
next
  case (Cons fname rest)
  from Cons.prems have rest: "\<forall>f\<in>set rest. endswith f ''.md'' \<longrightarrow>
      (case fs (path_join path f) of Some (RegularFile (Some t)) \<Rightarrow> True | _ \<Rightarrow> False)"
    by simp
  show ?case
  proof (cases "endswith fname ''.md''")
    case False
    from Cons.IH [OF rest, of d] False show ?thesis
      by (auto simp: fun_eq_iff)
  next
    case True
    with Cons.prems obtain t where t: "fs (path_join path fname) = Some (RegularFile (Some t))"
      by (auto split: option.splits fs_entry.splits)
    then have "open_read fs (path_join path fname) = Inr (universal_newlines t)"
      by (simp add: open_read_def)
    with True have step: "load_files fs path (fname # rest) d
        = load_files fs path rest (setitem fname (universal_newlines t) d)"
      by simp
    from Cons.IH [OF rest, of "setitem fname (universal_newlines t) d"] obtain d' where
      d': "load_files fs path rest (setitem fname (universal_newlines t) d) = Inr d'"
        "map_of d' = (\<lambda>f. if f \<in> set rest \<and> endswith f ''.md''
                          then (case fs (path_join path f) of
                                  Some (RegularFile (Some t)) \<Rightarrow> Some (universal_newlines t)
                                | _ \<Rightarrow> None)
                          else map_of (setitem fname (universal_newlines t) d) f)"
      by blast
    have "map_of d' = (\<lambda>f. if f \<in> set (fname # rest) \<and> endswith f ''.md''
                          then (case fs (path_join path f) of
                                  Some (RegularFile (Some t)) \<Rightarrow> Some (universal_newlines t)
                                | _ \<Rightarrow> None)
                          else map_of d f)"
      using True t by (auto simp: d'(2) map_of_setitem fun_eq_iff)
    with step d'(1) show ?thesis by simp
  qed
qed

lemma load_files_unreadable:
  assumes "\<exists>f\<in>set names. endswith f ''.md'' \<and>
             \<not> (case fs (path_join path f) of Some (RegularFile (Some t)) \<Rightarrow> True | _ \<Rightarrow> False)"
  shows "\<exists>e. load_files fs path names d = Inl e"
  using assms
proof (induction names arbitrary: d)
  case Nil
  then show ?case by simp
next
  case (Cons fname rest)
  show ?case
  proof (cases "endswith fname ''.md''")
    case False
    with Cons.prems have "\<exists>f\<in>set rest. endswith f ''.md'' \<and>
        \<not> (case fs (path_join path f) of Some (RegularFile (Some t)) \<Rightarrow> True | _ \<Rightarrow> False)"
      by auto
    from Cons.IH [OF this, of d] False show ?thesis by simp
  next
    case True
    show ?thesis
    proof (cases "open_read fs (path_join path fname)")
      case (Inl e)
      with True show ?thesis by simp
    next
      case (Inr content)
      then have "case fs (path_join path fname) of Some (RegularFile (Some t)) \<Rightarrow> True | _ \<Rightarrow> False"
        by (auto simp: open_read_def split: option.splits fs_entry.splits)
      with Cons.prems have "\<exists>f\<in>set rest. endswith f ''.md'' \<and>
          \<not> (case fs (path_join path f) of Some (RegularFile (Some t)) \<Rightarrow> True | _ \<Rightarrow> False)"
        by auto
      from Cons.IH [OF this, of "setitem fname content d"] True Inr show ?thesis by simp
    qed
  qed
qed

lemma load_categories_step:
  assumes "readable_dir fs path" and "map_of docs category = Some []"
  shows "\<exists>d. map_of d = category_files fs path \<and> (fs path = None \<longrightarrow> d = [])
     \<and> load_categories fs ((category, path) # rest) docs
         = load_categories fs rest (setitem category d docs)"
proof (cases "fs path")
  case None
  then have "load_categories fs ((category, path) # rest) docs
      = load_categories fs rest (setitem category [] docs)"
    by (simp add: path_exists_def setitem_same [OF assms(2)])
  with None show ?thesis
    by (auto simp: category_files_def)
next
  case (Some entry)
  show ?thesis
  proof (cases entry)
    case (RegularFile x)
    with Some assms(1) show ?thesis by (simp add: readable_dir_def)
  next
    case (Directory names)
    with Some assms(1) have "\<forall>f\<in>set names. endswith f ''.md'' \<longrightarrow>
        (case fs (path_join path f) of Some (RegularFile (Some t)) \<Rightarrow> True | _ \<Rightarrow> False)"
      by (simp add: readable_dir_def)
    from load_files_readable [OF this, of "[]"] obtain d where
      d: "load_files fs path names [] = Inr d"
        "map_of d = (\<lambda>f. if f \<in> set names \<and> endswith f ''.md''
                          then (case fs (path_join path f) of
                                  Some (RegularFile (Some t)) \<Rightarrow> Some (universal_newlines t)
                                | _ \<Rightarrow> None)
                          else map_of [] f)"
      by blast
    from d(1) Some Directory assms(2)
    have "load_categories fs ((category, path) # rest) docs
        = load_categories fs rest (setitem category d docs)"
      by (simp add: path_exists_def listdir_def getitem_def)
    moreover from d(2) Some Directory have "map_of d = category_files fs path"
      by (auto simp: category_files_def fun_eq_iff)
    ultimately show ?thesis using Some by auto
  qed
qed

lemma load_categories_unreadable:
  assumes "\<not> readable_dir fs path" and "map_of docs category = Some d0"
  shows "\<exists>e. load_categories fs ((category, path) # rest) docs = Inl e"
proof (cases "fs path")
  case None
  with assms(1) show ?thesis by (simp add: readable_dir_def)
next
  case (Some entry)
  show ?thesis
  proof (cases entry)
    case (RegularFile x)
    with Some show ?thesis
      by (simp add: path_exists_def listdir_def)
  next
    case (Directory names)
    with Some assms(1) have "\<exists>f\<in>set names. endswith f ''.md'' \<and>
        \<not> (case fs (path_join path f) of Some (RegularFile (Some t)) \<Rightarrow> True | _ \<Rightarrow> False)"
      by (simp add: readable_dir_def)
    from load_files_unreadable [OF this, of d0] obtain e where
      "load_files fs path names d0 = Inl e" by blast
    with Some Directory assms(2) show ?thesis
      by (simp add: path_exists_def listdir_def getitem_def)
  qed
qed

lemma load_documents_both_readable:
  assumes "readable_dir fs ''uploaded_docs/personal''"
    and "readable_dir fs ''uploaded_docs/org''"
  shows "\<exists>pd od. load_documents fs = Inr [(''personal'', pd), (''org'', od)]
     \<and> map_of pd = category_files fs ''uploaded_docs/personal''
     \<and> map_of od = category_files fs ''uploaded_docs/org''
     \<and> (fs ''uploaded_docs/personal'' = None \<longrightarrow> pd = [])
     \<and> (fs ''uploaded_docs/org'' = None \<longrightarrow> od = [])"
proof -
  let ?docs0 = "[(''personal'', []), (''org'', [])] :: docs"
  have "map_of ?docs0 ''personal'' = Some []" by simp
  from load_categories_step [OF assms(1) this, of "[(''org'', ''uploaded_docs/org'')]"]
  obtain pd where pd: "map_of pd = category_files fs ''uploaded_docs/personal''"
      "fs ''uploaded_docs/personal'' = None \<longrightarrow> pd = []"
      "load_documents fs
         = load_categories fs [(''org'', ''uploaded_docs/org'')] [(''personal'', pd), (''org'', [])]"
    by (auto simp: load_documents_def base_dirs_def)
  have "map_of [(''personal'', pd), (''org'', [])] ''org'' = Some []" by simp
  from load_categories_step [OF assms(2) this, of "[]"]
  obtain od where od: "map_of od = category_files fs ''uploaded_docs/org''"
      "fs ''uploaded_docs/org'' = None \<longrightarrow> od = []"
      "load_categories fs [(''org'', ''uploaded_docs/org'')] [(''personal'', pd), (''org'', [])]
         = Inr [(''personal'', pd), (''org'', od)]"
    by auto
  from pd od show ?thesis by auto
qed

lemma load_documents_personal_unreadable:
  assumes "\<not> readable_dir fs ''uploaded_docs/personal''"
  shows "\<exists>e. load_documents fs = Inl e"
proof -
  have "map_of ([(''personal'', []), (''org'', [])] :: docs) ''personal'' = Some []" by simp
  from load_categories_unreadable [OF assms this, of "[(''org'', ''uploaded_docs/org'')]"]
  show ?thesis by (simp add: load_documents_def base_dirs_def)
qed

lemma load_documents_org_unreadable:
  assumes "readable_dir fs ''uploaded_docs/personal''"
    and "\<not> readable_dir fs ''uploaded_docs/org''"
  shows "\<exists>e. load_documents fs = Inl e"
proof -
  have "map_of ([(''personal'', []), (''org'', [])] :: docs) ''personal'' = Some []" by simp
  from load_categories_step [OF assms(1) this, of "[(''org'', ''uploaded_docs/org'')]"]
  obtain pd where pd: "load_documents fs
      = load_categories fs [(''org'', ''uploaded_docs/org'')] [(''personal'', pd), (''org'', [])]"
    by (auto simp: load_documents_def base_dirs_def)
  have "map_of [(''personal'', pd), (''org'', [])] ''org'' = Some []" by simp
  from load_categories_unreadable [OF assms(2) this, of "[]"] pd show ?thesis by simp
qed

text \<open>
  C9, as the code has it. \<open>load_documents\<close> returns a result exactly when each of the
  two category paths is absent or is a directory whose entries named \<open>*.md\<close> are all
  regular files of valid UTF-8; otherwise it raises, whichever of the two is at fault.
  When it returns, the mapping of each category has as keys exactly the names of that
  directory's listing that end in \<open>.md\<close>, each with the decoded text of its file after
  the translation of line endings, and it is empty for an absent directory. Only the
  listing of the directory itself is read.
\<close>

theorem load_documents_result:
  "((\<exists>docs. load_documents fs = Inr docs)
      \<longleftrightarrow> readable_dir fs ''uploaded_docs/personal'' \<and> readable_dir fs ''uploaded_docs/org'')
   \<and> (readable_dir fs ''uploaded_docs/personal'' \<and> readable_dir fs ''uploaded_docs/org''
      \<longrightarrow> (\<exists>pd od. load_documents fs = Inr [(''personal'', pd), (''org'', od)]
            \<and> map_of pd = category_files fs ''uploaded_docs/personal''
            \<and> map_of od = category_files fs ''uploaded_docs/org''
            \<and> (fs ''uploaded_docs/personal'' = None \<longrightarrow> pd = [])
            \<and> (fs ''uploaded_docs/org'' = None \<longrightarrow> od = [])))"
proof (intro conjI iffI impI)
  assume ok: "\<exists>docs. load_documents fs = Inr docs"
  show pers: "readable_dir fs ''uploaded_docs/personal''"
  proof (rule ccontr)
    assume "\<not> readable_dir fs ''uploaded_docs/personal''"
    from load_documents_personal_unreadable [OF this] ok show False by auto
  qed
  show "readable_dir fs ''uploaded_docs/org''"
  proof (rule ccontr)
    assume "\<not> readable_dir fs ''uploaded_docs/org''"
    from load_documents_org_unreadable [OF pers this] ok show False by auto
  qed
next
  assume "readable_dir fs ''uploaded_docs/personal'' \<and> readable_dir fs ''uploaded_docs/org''"
  then show "\<exists>docs. load_documents fs = Inr docs"
    using load_documents_both_readable [of fs] by blast
next
  assume "readable_dir fs ''uploaded_docs/personal'' \<and> readable_dir fs ''uploaded_docs/org''"
  then show "\<exists>pd od. load_documents fs = Inr [(''personal'', pd), (''org'', od)]
            \<and> map_of pd = category_files fs ''uploaded_docs/personal''
            \<and> map_of od = category_files fs ''uploaded_docs/org''
            \<and> (fs ''uploaded_docs/personal'' = None \<longrightarrow> pd = [])
            \<and> (fs ''uploaded_docs/org'' = None \<longrightarrow> od = [])"
    using load_documents_both_readable [of fs] by blast
qed

text \<open>
  C9 as stated fails twice. The loader opens every entry named \<open>*.md\<close> without asking
  whether it is a regular file: with a regular file \<open>chart.md\<close> and a subdirectory
  \<open>archive.md\<close> in the org directory it raises IsADirectoryError instead of returning the
  regular file alone. And the value is not the full decoded content: a carriage return
  followed by a line feed in \<open>chart.md\<close> is read as one line feed.
\<close>

theorem load_documents_md_directory:
  "load_documents
     (\<lambda>p. if p = ''uploaded_docs/org'' then Some (Directory [''chart.md'', ''archive.md''])
          else if p = ''uploaded_docs/org/chart.md'' then Some (RegularFile (Some ''# Chart''))
          else if p = ''uploaded_docs/org/archive.md'' then Some (Directory [])
          else None)
   = Inl IsADirectoryError
   \<and> load_documents
     (\<lambda>p. if p = ''uploaded_docs/org'' then Some (Directory [''chart.md''])
          else if p = ''uploaded_docs/org/chart.md''
          then Some (RegularFile (Some (''# Chart'' @ [CHR 0x0D, CHR 0x0A] @ ''text'')))
          else None)
   = Inr [(''personal'', []), (''org'', [(''chart.md'', ''# Chart'' @ [CHR 0x0A] @ ''text'')])]
   \<and> ''# Chart'' @ [CHR 0x0A] @ ''text'' \<noteq> ''# Chart'' @ [CHR 0x0D, CHR 0x0A] @ ''text''"
  by code_simp

theorem load_documents_result_witness:
  "\<exists>pd od. load_documents
       (\<lambda>p. if p = ''uploaded_docs/org'' then Some (Directory [''chart.md'', ''notes.txt''])
            else if p = ''uploaded_docs/org/chart.md''
            then Some (RegularFile (Some (''# Chart'' @ [CHR 0x0D, CHR 0x0A] @ ''text'')))
            else if p = ''uploaded_docs/org/notes.txt'' then Some (RegularFile (Some ''hello''))
            else None)
     = Inr [(''personal'', pd), (''org'', od)]
     \<and> pd = [] \<and> map_of od ''chart.md'' = Some (''# Chart'' @ [CHR 0x0A] @ ''text'')
     \<and> map_of od ''notes.txt'' = None"
proof -
  let ?fs = "\<lambda>p. if p = ''uploaded_docs/org'' then Some (Directory [''chart.md'', ''notes.txt''])
            else if p = ''uploaded_docs/org/chart.md''
            then Some (RegularFile (Some (''# Chart'' @ [CHR 0x0D, CHR 0x0A] @ ''text'')))
            else if p = ''uploaded_docs/org/notes.txt'' then Some (RegularFile (Some ''hello''))
            else None"
  have a: "readable_dir ?fs ''uploaded_docs/personal''"
    by (simp add: readable_dir_def)
  have b: "readable_dir ?fs ''uploaded_docs/org''"
    by (simp add: readable_dir_def path_join_def endswith_def)
  have c: "category_files ?fs ''uploaded_docs/org'' ''chart.md''
           = Some (''# Chart'' @ [CHR 0x0A] @ ''text'')"
    by (simp add: category_files_def path_join_def endswith_def)
  have d: "category_files ?fs ''uploaded_docs/org'' ''notes.txt'' = None"
    by (simp add: category_files_def path_join_def endswith_def)
  from load_documents_result [of ?fs] a b c d show ?thesis
    by auto
qed

end
